theory Spec2Isabelle
  imports Main "HOL-Library.Word"
begin

section \<open>Machine types and errors of \<^verbatim>\<open>data_stream.hpp\<close>\<close>

text \<open>
  The header is written for an LLP64/LP64 target: \<^verbatim>\<open>size_t\<close> is an unsigned 64-bit
  integer, \<^verbatim>\<open>int\<close> and \<^verbatim>\<open>unsigned int\<close> are 32 bits wide. Words carry no sign;
  an \<^verbatim>\<open>int\<close> is compared with \<open>word_sle\<close> and \<open>word_sless\<close> (two's complement)
  and converted to \<^verbatim>\<open>size_t\<close> by sign extension (\<open>scast\<close>); \<^verbatim>\<open>size_t\<close> values are
  compared with the unsigned \<open><\<close> of words, converted to \<^verbatim>\<open>int\<close> by truncation
  and from \<^verbatim>\<open>unsigned int\<close> by zero extension (both \<open>ucast\<close>).
\<close>

type_synonym size_t = "64 word"
type_synonym c_int = "32 word"
type_synonym c_uint = "32 word"

definition MAX_BOUND_SIZE :: size_t where
  "MAX_BOUND_SIZE = 2147483647"

text \<open>
  The exception classes of the namespace, with the data members that their
  constructors record. \<open>std_out_of_range\<close> is the exception of \<^verbatim>\<open>std::deque::at\<close>.
  \<open>undefined_behaviour\<close> is no exception: it marks the places where the C++ standard
  gives the program no meaning (\<^verbatim>\<open>front()\<close> of an empty deque, an iterator past
  the end, a store past the end of the caller's buffer).
\<close>

datatype error =
    type_error
  | size_violation size_t size_t
  | unset_marker
  | out_of_range c_int c_int c_int
  | invalid_argument
  | std_out_of_range
  | undefined_behaviour

text \<open>The generic value wrapper \<^verbatim>\<open>GenTy\<close> holds one element.\<close>

datatype 'a generic_type = Generic 'a

section \<open>The free store\<close>

text \<open>
  A stream owns two heap objects through pointers: its recursive mutex and the
  \<^verbatim>\<open>size_t\<close> cell \<^verbatim>\<open>*_mrkCount\<close>. The store maps addresses to the contents of
  \<^verbatim>\<open>size_t\<close> cells; \<open>brk\<close> is the next address that \<^verbatim>\<open>new\<close> hands out.
\<close>

type_synonym addr = nat

record heap =
  cells :: "addr \<Rightarrow> size_t"
  brk :: addr

definition empty_heap :: heap where
  "empty_heap = \<lparr>cells = (\<lambda>_. 0), brk = 0\<rparr>"

definition new_size_t :: "size_t \<Rightarrow> heap \<Rightarrow> addr \<times> heap" where
  "new_size_t v h = (brk h, h\<lparr>cells := (cells h)(brk h := v), brk := Suc (brk h)\<rparr>)"

definition new_mutex :: "heap \<Rightarrow> addr \<times> heap" where
  "new_mutex h = (brk h, h\<lparr>brk := Suc (brk h)\<rparr>)"

definition load :: "addr \<Rightarrow> heap \<Rightarrow> size_t" where
  "load p h = cells h p"

definition store :: "addr \<Rightarrow> size_t \<Rightarrow> heap \<Rightarrow> heap" where
  "store p v h = h\<lparr>cells := (cells h)(p := v)\<rparr>"

section \<open>\<^verbatim>\<open>std::deque\<close> and the caller's buffer\<close>

text \<open>A deque is the list of its elements, index 0 first.\<close>

definition deque_front :: "'e list \<Rightarrow> error + 'e" where
  "deque_front xs = (case xs of [] \<Rightarrow> Inl undefined_behaviour | x # _ \<Rightarrow> Inr x)"

definition deque_at :: "'e list \<Rightarrow> size_t \<Rightarrow> error + 'e" where
  "deque_at xs n = (if unat n < length xs then Inr (xs ! unat n) else Inl std_out_of_range)"

text \<open>\<^verbatim>\<open>push_front(x); pop_back()\<close>: after the insertion the deque is never empty.\<close>

definition push_front_pop_back :: "'e \<Rightarrow> 'e list \<Rightarrow> 'e list" where
  "push_front_pop_back x xs = butlast (x # xs)"

text \<open>\<^verbatim>\<open>resize(n)\<close> drops elements at the back or appends value-initialised ones.\<close>

definition resize :: "nat \<Rightarrow> 'e \<Rightarrow> 'e list \<Rightarrow> 'e list" where
  "resize n dflt xs = take n xs @ replicate (n - length xs) dflt"

text \<open>
  The destination of a copy is a pointer: \<open>None\<close> is the null pointer, \<open>Some d\<close>
  points at a buffer whose elements are \<open>d\<close>. \<^verbatim>\<open>*dest = x\<close> stores at \<open>d ! 0\<close>;
  \<^verbatim>\<open>std::copy(b, e, dest)\<close> stores the range from \<open>d ! 0\<close> on.
\<close>

definition store_ptr :: "'e list \<Rightarrow> 'e \<Rightarrow> error + 'e list" where
  "store_ptr d x = (case d of [] \<Rightarrow> Inl undefined_behaviour | _ # r \<Rightarrow> Inr (x # r))"

definition std_copy :: "'e list \<Rightarrow> 'e list \<Rightarrow> error + 'e list" where
  "std_copy src d =
     (if length src \<le> length d then Inr (src @ drop (length src) d)
      else Inl undefined_behaviour)"

section \<open>The container without secondary deque\<close>

text \<open>
  The data members of \<^verbatim>\<open>Object<Ty, SecTy, GenTy, false, Allocator>\<close>, in the order of
  their declaration. \<open>mtx\<close> and \<open>mrkCount\<close> are pointers into the store.
\<close>

record 'a Object =
  mtx :: addr
  push_has_priority :: bool
  qCount :: size_t
  qBound :: size_t
  mrkCount :: addr
  myImplObj :: "'a list"

text \<open>
  \<^verbatim>\<open>Object(size_t sz)\<close>. The deque starts with \<^verbatim>\<open>min(sz, MAX_BOUND_SIZE)\<close>
  value-initialised elements (\<open>dflt\<close> is \<^verbatim>\<open>Ty()\<close>); the marker cell starts as
  \<^verbatim>\<open>size_t(-1)\<close>.
\<close>

definition Object_ctor :: "'a \<Rightarrow> size_t \<Rightarrow> heap \<Rightarrow> 'a Object \<times> heap" where
  "Object_ctor dflt sz h =
     (let (m, h1) = new_mutex h;
          (k, h2) = new_size_t (- 1) h1
      in (\<lparr>mtx = m, push_has_priority = True, qCount = 0,
           qBound = min sz MAX_BOUND_SIZE, mrkCount = k,
           myImplObj = replicate (unat (min sz MAX_BOUND_SIZE)) dflt\<rparr>, h2))"

text \<open>
  \<^verbatim>\<open>Object(const _myTy & stream)\<close>: the deque, bound and count are copied, a new
  mutex is allocated, and \<^verbatim>\<open>_mrkCount( stream._mrkCount )\<close> copies the pointer.
\<close>

definition Object_copy_ctor :: "'a Object \<Rightarrow> heap \<Rightarrow> 'a Object \<times> heap" where
  "Object_copy_ctor stream h =
     (let (m, h1) = new_mutex h
      in (\<lparr>mtx = m, push_has_priority = True, qCount = qCount stream,
           qBound = qBound stream, mrkCount = mrkCount stream,
           myImplObj = myImplObj stream\<rparr>, h1))"

text \<open>
  \<^verbatim>\<open>_push\<close>. Run by one thread, \<^verbatim>\<open>try_lock\<close> succeeds and the lock has no further
  effect. Both comparisons are between \<^verbatim>\<open>size_t\<close> values. The public \<^verbatim>\<open>push\<close>
  resets the counter of the conversion layer and calls \<^verbatim>\<open>_push\<close>.
\<close>

definition push :: "'a \<Rightarrow> 'a Object \<Rightarrow> heap \<Rightarrow> 'a Object \<times> heap" where
  "push item s h =
     (let s1 = s\<lparr>push_has_priority := True\<rparr>;
          s2 = s1\<lparr>myImplObj := push_front_pop_back item (myImplObj s1)\<rparr>;
          s3 = (if qCount s2 < qBound s2 then s2\<lparr>qCount := qCount s2 + 1\<rparr> else s2);
          h1 = (if load (mrkCount s3) h < qBound s3 - 1
                then store (mrkCount s3) (load (mrkCount s3) h + 1) h else h)
      in (s3, h1))"

text \<open>
  \<^verbatim>\<open>_check_adj\<close> works on \<^verbatim>\<open>int\<close>: \<^verbatim>\<open>sz = (int)impl.size()\<close>, and for
  \<^verbatim>\<open>_qBound != sz\<close> the \<^verbatim>\<open>int\<close> is converted to \<^verbatim>\<open>size_t\<close>. The adjusted
  \<open>(end, beg)\<close> are returned, as the reference parameters hold them afterwards.
\<close>

definition check_adj :: "'a Object \<Rightarrow> c_int \<Rightarrow> c_int \<Rightarrow> 'e list \<Rightarrow> error + (c_int \<times> c_int)" where
  "check_adj s end beg impl =
     (let sz = (of_nat (length impl) :: c_int) in
      if qBound s \<noteq> scast sz then Inl (size_violation (qBound s) (scast sz))
      else
        let end1 = (if word_sless end 0 then end + sz else end);
            beg1 = (if word_sless beg 0 then beg + sz else beg)
        in if word_sle sz beg1 \<or> word_sle sz end1 \<or> word_sless beg1 0 \<or> word_sless end1 0
           then Inl (out_of_range sz beg1 end1)
           else if word_sless end1 beg1 then Inl invalid_argument
           else Inr (end1, beg1))"

text \<open>
  \<^verbatim>\<open>_copy_to_ptr\<close>. Iterators are positions counted from \<^verbatim>\<open>cbegin()\<close>;
  \<^verbatim>\<open>end\<close> and \<^verbatim>\<open>beg\<close> arrive as \<^verbatim>\<open>unsigned int\<close>, \<^verbatim>\<open>++end\<close> wraps at 32 bits and
  \<^verbatim>\<open>sz + beg\<close> at 64.
\<close>

definition copy_to_ptr :: "'a Object \<Rightarrow> 'e list \<Rightarrow> 'e list \<Rightarrow> size_t \<Rightarrow> c_uint \<Rightarrow> c_uint \<Rightarrow> error + 'e list" where
  "copy_to_ptr s impl dest sz end beg =
     (let bIter = unat beg;
          eIter = unat (min (sz + ucast beg) (min (ucast (end + 1)) (qCount s)))
      in if length impl < bIter \<or> length impl < eIter then Inl undefined_behaviour
         else if bIter < eIter then std_copy (take (eIter - bIter) (drop bIter impl)) dest
         else Inr dest)"

text \<open>
  \<^verbatim>\<open>copy(Ty* dest, size_t sz, int end, int beg, secondary_type* sec)\<close>; this class
  ignores \<^verbatim>\<open>sec\<close>. The result is the buffer after the call and the store.
\<close>

definition copy :: "'a Object \<Rightarrow> 'a list option \<Rightarrow> size_t \<Rightarrow> c_int \<Rightarrow> c_int \<Rightarrow> heap \<Rightarrow> (error + 'a list) \<times> heap" where
  "copy s dest sz end beg h =
     (case dest of
        None \<Rightarrow> (Inl invalid_argument, h)
      | Some d \<Rightarrow>
          (case check_adj s end beg (myImplObj s) of
             Inl e \<Rightarrow> (Inl e, h)
           | Inr (end1, beg1) \<Rightarrow>
               (case (if end1 = beg1
                      then (case (if beg1 \<noteq> 0 then deque_at (myImplObj s) (scast beg1)
                                  else deque_front (myImplObj s)) of
                              Inl e \<Rightarrow> Inl e
                            | Inr x \<Rightarrow> store_ptr d x)
                      else copy_to_ptr s (myImplObj s) d sz end1 beg1) of
                  Inl e \<Rightarrow> (Inl e, h)
                | Inr d' \<Rightarrow> (Inr d', store (mrkCount s) (scast (beg1 - 1)) h))))"

text \<open>
  For the comparison of the two paths of \<^verbatim>\<open>copy\<close>: the copy that takes the range
  path \<^verbatim>\<open>_copy_to_ptr\<close> for every range, also when \<^verbatim>\<open>end == beg\<close>. This function
  is not in the source; it is \<open>copy\<close> without the single-element branch.
\<close>

definition copy_range_path :: "'a Object \<Rightarrow> 'a list option \<Rightarrow> size_t \<Rightarrow> c_int \<Rightarrow> c_int \<Rightarrow> heap \<Rightarrow> (error + 'a list) \<times> heap" where
  "copy_range_path s dest sz end beg h =
     (case dest of
        None \<Rightarrow> (Inl invalid_argument, h)
      | Some d \<Rightarrow>
          (case check_adj s end beg (myImplObj s) of
             Inl e \<Rightarrow> (Inl e, h)
           | Inr (end1, beg1) \<Rightarrow>
               (case copy_to_ptr s (myImplObj s) d sz end1 beg1 of
                  Inl e \<Rightarrow> (Inl e, h)
                | Inr d' \<Rightarrow> (Inr d', store (mrkCount s) (scast (beg1 - 1)) h))))"

text \<open>
  \<^verbatim>\<open>copy_using_atomic_marker(Ty* dest, size_t sz, int beg, secondary_type* sec)\<close>.
  The guard \<^verbatim>\<open>*_mrkCount < 0\<close> compares a \<^verbatim>\<open>size_t\<close> with zero; the marker is
  passed on as the \<^verbatim>\<open>int\<close> parameter \<^verbatim>\<open>end\<close>.
\<close>

definition copy_using_atomic_marker :: "'a Object \<Rightarrow> 'a list option \<Rightarrow> size_t \<Rightarrow> c_int \<Rightarrow> heap \<Rightarrow> (error + 'a list) \<times> heap" where
  "copy_using_atomic_marker s dest sz beg h =
     (if load (mrkCount s) h < 0 then (Inl unset_marker, h)
      else copy s dest sz (ucast (load (mrkCount s) h)) beg h)"

text \<open>\<^verbatim>\<open>operator[](int indx)\<close>: the marker is written before the element is read.\<close>

definition operator_at :: "'a Object \<Rightarrow> c_int \<Rightarrow> heap \<Rightarrow> (error + 'a generic_type) \<times> heap" where
  "operator_at s indx h =
     (if indx = 0 then
        (let h1 = store (mrkCount s) (- 1) h in
         case deque_front (myImplObj s) of
           Inl e \<Rightarrow> (Inl e, h1)
         | Inr x \<Rightarrow> (Inr (Generic x), h1))
      else
        (case check_adj s indx 0 (myImplObj s) of
           Inl e \<Rightarrow> (Inl e, h)
         | Inr (indx1, dummy) \<Rightarrow>
             (let h1 = store (mrkCount s) (scast (indx1 - 1)) h in
              case deque_at (myImplObj s) (scast indx1) of
                Inl e \<Rightarrow> (Inl e, h1)
              | Inr x \<Rightarrow> (Inr (Generic x), h1))))"

text \<open>
  \<^verbatim>\<open>bound_size(size_t sz)\<close>; \<^verbatim>\<open>shrink_to_fit\<close> changes no element. The function
  has no access to the marker cell: the store is returned as it came.
\<close>

definition bound_size :: "'a \<Rightarrow> size_t \<Rightarrow> 'a Object \<Rightarrow> heap \<Rightarrow> ('a Object \<times> size_t) \<times> heap" where
  "bound_size dflt sz0 s h =
     (let sz = min sz0 MAX_BOUND_SIZE;
          s1 = s\<lparr>myImplObj := resize (unat sz) dflt (myImplObj s)\<rparr>;
          s2 = (if sz < qCount s1 then s1\<lparr>qCount := sz\<rparr> else s1)
      in ((s2\<lparr>qBound := sz\<rparr>, sz), h))"

text \<open>
  \<^verbatim>\<open>secondary_vector(int end, int beg)\<close> of the container without secondary
  deque: a vector of \<^verbatim>\<open>min<size_t>(++end - beg, _qCount)\<close> value-initialised
  \<^verbatim>\<open>SecTy\<close> (\<open>sdflt\<close> is \<^verbatim>\<open>SecTy()\<close>).
\<close>

definition secondary_vector :: "'b \<Rightarrow> 'a Object \<Rightarrow> c_int \<Rightarrow> c_int \<Rightarrow> heap \<Rightarrow> (error + 'b list) \<times> heap" where
  "secondary_vector sdflt s end beg h =
     (case check_adj s end beg (myImplObj s) of
        Inl e \<Rightarrow> (Inl e, h)
      | Inr (end1, beg1) \<Rightarrow>
          (Inr (replicate (unat (min (scast (end1 + 1 - beg1)) (qCount s))) sdflt), h))"

section \<open>The container with secondary deque\<close>

text \<open>
  \<^verbatim>\<open>Object<Ty, SecTy, GenTy, true, Allocator>\<close> derives from the container above and
  adds \<^verbatim>\<open>_myImplSecObj\<close>.
\<close>

record ('a, 'b) Object_sec =
  base :: "'a Object"
  myImplSecObj :: "'b list"

definition Object_sec_ctor :: "'a \<Rightarrow> 'b \<Rightarrow> size_t \<Rightarrow> heap \<Rightarrow> ('a, 'b) Object_sec \<times> heap" where
  "Object_sec_ctor dflt sdflt sz h =
     (let (b, h1) = Object_ctor dflt (min sz MAX_BOUND_SIZE) h
      in (\<lparr>base = b, myImplSecObj = replicate (unat (min sz MAX_BOUND_SIZE)) sdflt\<rparr>, h1))"

definition push_sec :: "'a \<Rightarrow> 'b \<Rightarrow> ('a, 'b) Object_sec \<Rightarrow> heap \<Rightarrow> ('a, 'b) Object_sec \<times> heap" where
  "push_sec item sec p h =
     (let b1 = (base p)\<lparr>push_has_priority := True\<rparr>;
          b2 = b1\<lparr>myImplObj := push_front_pop_back item (myImplObj b1)\<rparr>;
          q = push_front_pop_back sec (myImplSecObj p);
          b3 = (if qCount b2 < qBound b2 then b2\<lparr>qCount := qCount b2 + 1\<rparr> else b2);
          h1 = (if load (mrkCount b3) h < qBound b3 - 1
                then store (mrkCount b3) (load (mrkCount b3) h + 1) h else h)
      in (\<lparr>base = b3, myImplSecObj = q\<rparr>, h1))"

definition bound_size_sec :: "'a \<Rightarrow> 'b \<Rightarrow> size_t \<Rightarrow> ('a, 'b) Object_sec \<Rightarrow> heap \<Rightarrow> (('a, 'b) Object_sec \<times> size_t) \<times> heap" where
  "bound_size_sec dflt sdflt sz0 p h =
     (let sz = min sz0 MAX_BOUND_SIZE;
          q = resize (unat sz) sdflt (myImplSecObj p);
          ((b, r), h1) = bound_size dflt sz (base p) h
      in ((\<lparr>base = b, myImplSecObj = q\<rparr>, r), h1))"

text \<open>
  \<^verbatim>\<open>both(int indx)\<close>: \<^verbatim>\<open>operator[]\<close> of the base class takes \<^verbatim>\<open>indx\<close> by value,
  so the index is adjusted a second time against the secondary deque.
\<close>

definition both :: "('a, 'b) Object_sec \<Rightarrow> c_int \<Rightarrow> heap \<Rightarrow> (error + ('a generic_type \<times> 'b)) \<times> heap" where
  "both p indx h =
     (case operator_at (base p) indx h of
        (Inl e, h1) \<Rightarrow> (Inl e, h1)
      | (Inr gen, h1) \<Rightarrow>
          if indx = 0 then
            (case deque_front (myImplSecObj p) of
               Inl e \<Rightarrow> (Inl e, h1)
             | Inr x \<Rightarrow> (Inr (gen, x), h1))
          else
            (case check_adj (base p) indx 0 (myImplSecObj p) of
               Inl e \<Rightarrow> (Inl e, h1)
             | Inr (indx1, dummy) \<Rightarrow>
                 (case deque_at (myImplSecObj p) (scast indx1) of
                    Inl e \<Rightarrow> (Inl e, h1)
                  | Inr x \<Rightarrow> (Inr (gen, x), h1))))"

section \<open>Client sequences and the invariants of the data model\<close>

text \<open>A push sequence: the values of \<open>vs\<close> are pushed from left to right.\<close>

fun push_all :: "'a list \<Rightarrow> 'a Object \<times> heap \<Rightarrow> 'a Object \<times> heap" where
  "push_all [] sh = sh"
| "push_all (v # vs) sh = push_all vs (push v (fst sh) (snd sh))"

fun push_all_sec :: "('a \<times> 'b) list \<Rightarrow> ('a, 'b) Object_sec \<times> heap \<Rightarrow> ('a, 'b) Object_sec \<times> heap" where
  "push_all_sec [] ph = ph"
| "push_all_sec (vs # ps) ph = push_all_sec ps (push_sec (fst vs) (snd vs) (fst ph) (snd ph))"

text \<open>A history of pushes and resizes.\<close>

datatype 'a operation = Push 'a | Resize size_t

fun run :: "'a \<Rightarrow> 'a operation list \<Rightarrow> 'a Object \<times> heap \<Rightarrow> 'a Object \<times> heap" where
  "run dflt [] sh = sh"
| "run dflt (Push v # ops) sh = run dflt ops (push v (fst sh) (snd sh))"
| "run dflt (Resize n # ops) sh =
     run dflt ops (fst (fst (bound_size dflt n (fst sh) (snd sh))),
                   snd (bound_size dflt n (fst sh) (snd sh)))"

text \<open>
  The invariants that the constructor establishes and that pushes and resizes keep:
  the deque has \<^verbatim>\<open>_qBound\<close> elements, the count does not exceed the bound and the
  bound does not exceed \<^verbatim>\<open>MAX_BOUND_SIZE\<close>; the positions from the count on hold
  value-initialised elements.
\<close>

definition wf_stream :: "'a Object \<Rightarrow> bool" where
  "wf_stream s \<longleftrightarrow>
     length (myImplObj s) = unat (qBound s) \<and> qCount s \<le> qBound s \<and>
     qBound s \<le> MAX_BOUND_SIZE"

definition unused_default :: "'a \<Rightarrow> 'a Object \<Rightarrow> bool" where
  "unused_default dflt s \<longleftrightarrow>
     drop (unat (qCount s)) (myImplObj s) =
       replicate (length (myImplObj s) - unat (qCount s)) dflt"

section \<open>Arithmetic of the machine types\<close>

lemma sint_of_nat_small: "n < 2 ^ 31 \<Longrightarrow> sint (of_nat n :: c_int) = int n"
  by (simp add: signed_of_nat signed_take_bit_int_eq_self)

lemma unat_of_nat_small: "n < 2 ^ 31 \<Longrightarrow> unat (of_nat n :: c_int) = n"
  by (simp add: unat_of_nat)

lemma unat_of_nat_size_t: "n < 2 ^ 64 \<Longrightarrow> unat (of_nat n :: size_t) = n"
  by (simp add: unat_of_nat)

lemma nonneg_is_of_nat:
  assumes "0 \<le> sint (x::c_int)"
  shows "x = of_nat (nat (sint x))" and "nat (sint x) < 2 ^ 31"
proof -
  have "x = word_of_int (sint x)" by simp
  also have "\<dots> = of_nat (nat (sint x))" using assms by (rule word_of_int_nat)
  finally show "x = of_nat (nat (sint x))" .
  have "sint x < 2 ^ 31" using sint_less[of x] by simp
  then show "nat (sint x) < 2 ^ 31" using assms by (simp add: nat_less_iff)
qed

lemma sint_nonneg_unat: "0 \<le> sint (x::c_int) \<Longrightarrow> sint x = int (unat x)"
  using nonneg_is_of_nat[of x] unat_of_nat_small[of "nat (sint x)"] by simp

lemma unat_nonneg_small: "0 \<le> sint (x::c_int) \<Longrightarrow> unat x < 2 ^ 31"
  using nonneg_is_of_nat[of x] unat_of_nat_small[of "nat (sint x)"] by simp

lemma scast_of_nat_small: "n < 2 ^ 31 \<Longrightarrow> (scast (of_nat n :: c_int) :: size_t) = of_nat n"
  by (simp add: scast_eq sint_of_nat_small)

lemma unat_ucast_up: "unat (ucast (x::c_uint) :: size_t) = unat x"
proof -
  have "unat x < 2 ^ 64" using unsigned_less[of x, where 'a=nat] by simp
  then show ?thesis by (simp add: unsigned_ucast_eq take_bit_nat_eq_self)
qed

lemma scast_nonneg: "0 \<le> sint (x::c_int) \<Longrightarrow> (scast x :: size_t) = ucast x"
  by (simp add: scast_eq sint_nonneg_unat)

lemma unat_scast_nonneg: "0 \<le> sint (x::c_int) \<Longrightarrow> unat (scast x :: size_t) = unat x"
  by (simp add: scast_nonneg unat_ucast_up)

lemma unat_min_word: "unat (min (a::'w::len word) b) = min (unat a) (unat b)"
  by (simp add: min_def word_le_nat_alt)

lemma unat_plus_one_small: "unat (x::c_int) < 2 ^ 31 \<Longrightarrow> unat (x + 1) = Suc (unat x)"
  by (simp add: unat_word_ariths)

lemma unat_of_nat_le: "unat (of_nat n :: 'w::len word) \<le> n"
  by (simp add: unat_of_nat)

section \<open>The marker cell is unsigned\<close>

text \<open>
  \<^verbatim>\<open>_mrkCount\<close> is declared \<^verbatim>\<open>size_t*\<close>, so the unset value \<^verbatim>\<open>-1\<close> is the largest
  \<^verbatim>\<open>size_t\<close>. The guard of \<^verbatim>\<open>copy_using_atomic_marker\<close> can therefore never
  hold, and the call is the plain copy up to the marker in every state.
\<close>

lemma copy_using_atomic_marker_guard_dead:
  "copy_using_atomic_marker s dest sz beg h =
     copy s dest sz (ucast (load (mrkCount s) h)) beg h"
  by (simp add: copy_using_atomic_marker_def)

text \<open>
  C1 (the code departs from the claim). A stream of bound 4 receives four pushes and
  its marker is still unset; \<^verbatim>\<open>copy_using_atomic_marker(dest, 4, 0)\<close> does not raise
  \<^verbatim>\<open>unset_marker\<close>: it returns what \<^verbatim>\<open>copy(dest, 4, -1, 0)\<close> returns, the whole
  window.
\<close>

theorem copy_using_atomic_marker_unset_evaluates:
  "(let (s, h) = Object_ctor (0::int) 4 empty_heap;
        (s, h) = push 10 s h;
        (s, h) = push 20 s h;
        (s, h) = push 30 s h;
        (s, h) = push 40 s h;
        (r, h') = copy_using_atomic_marker s (Some [0, 0, 0, 0]) 4 0 h
    in load (mrkCount s) h = - 1 \<and> r \<noteq> Inl unset_marker \<and> r = Inr [40, 30, 20, 10] \<and>
       r = fst (copy s (Some [0, 0, 0, 0]) 4 (- 1) 0 h))"
  by code_simp

text \<open>
  C2 (the code departs from the claim). A push on a new stream of bound 3 leaves the
  marker at the unset value: \<^verbatim>\<open>*_mrkCount < (_qBound - 1)\<close> compares the largest
  \<^verbatim>\<open>size_t\<close> with 2, so the increment to 0 does not happen.
\<close>

theorem push_leaves_unset_marker:
  "(let (s, h) = Object_ctor (0::int) 3 empty_heap;
        (s', h') = push 7 s h
    in load (mrkCount s) h = - 1 \<and> load (mrkCount s') h' = - 1 \<and> load (mrkCount s') h' \<noteq> 0)"
  by code_simp

text \<open>
  From a marker \<open>k\<close> with \<open>0 \<le> k \<le> B - 1\<close> the push does advance it to
  \<open>min (k + 1) (B - 1)\<close>.
\<close>

lemma push_marker_valid:
  assumes k: "load (mrkCount s) h \<le> qBound s - 1" and b: "qBound s \<noteq> 0"
  shows "load (mrkCount s) (snd (push v s h)) = min (load (mrkCount s) h + 1) (qBound s - 1)"
proof (cases "load (mrkCount s) h < qBound s - 1")
  case True
  then have "load (mrkCount s) h + 1 \<le> qBound s - 1" by (rule inc_le)
  then show ?thesis using True
    by (simp add: push_def Let_def load_def store_def min_def)
next
  case False
  then have e: "load (mrkCount s) h = qBound s - 1" using k by simp
  have "qBound s - 1 \<le> qBound s"
    using b by (simp add: word_le_nat_alt unat_minus_one)
  then show ?thesis using False e
    by (simp add: push_def Let_def load_def min_def)
qed

section \<open>The copy constructor\<close>

lemma Object_copy_ctor_fields:
  "mrkCount (fst (Object_copy_ctor s h)) = mrkCount s"
  "mtx (fst (Object_copy_ctor s h)) = brk h"
  "myImplObj (fst (Object_copy_ctor s h)) = myImplObj s"
  "qCount (fst (Object_copy_ctor s h)) = qCount s"
  "qBound (fst (Object_copy_ctor s h)) = qBound s"
  by (simp_all add: Object_copy_ctor_def new_mutex_def)

text \<open>
  C4 (the code departs from the claim). A stream of bound 3 receives three pushes and
  an indexed read at 2, which sets its marker to 1. The stream is then copied. The
  copy has a mutex of its own and an equal deque, but the same marker cell: the read
  at index 0 on the copy resets the marker of the source.
\<close>

theorem copy_ctor_shares_marker:
  "(let (s, h) = Object_ctor (0::int) 3 empty_heap;
        (s, h) = push 1 s h;
        (s, h) = push 2 s h;
        (s, h) = push 3 s h;
        (r, h) = operator_at s 2 h;
        (c, h) = Object_copy_ctor s h;
        (r', h') = operator_at c 0 h
    in mtx c \<noteq> mtx s \<and> mrkCount c = mrkCount s \<and> myImplObj c = myImplObj s \<and>
       load (mrkCount s) h = 1 \<and> load (mrkCount s) h' = - 1)"
  by code_simp

section \<open>Index adjustment\<close>

lemma sint_nonneg_of_small: "unat (x::c_int) < 2 ^ 31 \<Longrightarrow> 0 \<le> sint x"
proof -
  assume a: "unat x < 2 ^ 31"
  have "sint (of_nat (unat x) :: c_int) = int (unat x)" using a by (rule sint_of_nat_small)
  then show ?thesis by simp
qed

lemma check_adj_InrD:
  assumes "check_adj s end beg impl = Inr (e, b)"
  shows "0 \<le> sint b" and "sint b \<le> sint e"
    and "sint e < sint (of_nat (length impl) :: c_int)"
    and "qBound s = scast (of_nat (length impl) :: c_int)"
  using assms
  by (auto simp: check_adj_def Let_def word_sle_eq word_sless_alt split: if_splits)

lemma check_adj_Inr_nat:
  assumes "check_adj s end beg impl = Inr (e, b)"
  shows "unat b \<le> unat e" and "unat e < length impl" and "Suc (unat e) < 2 ^ 31"
    and "unat e < unat (qBound s)" and "unat (qBound s) \<le> length impl"
proof -
  let ?sz = "of_nat (length impl) :: c_int"
  note D = check_adj_InrD[OF assms]
  have b0: "0 \<le> sint b" by (rule D(1))
  have e0: "0 \<le> sint e" using D(1,2) by linarith
  have s0: "0 \<le> sint ?sz" using e0 D(3) by linarith
  have sb: "sint b = int (unat b)" using b0 by (rule sint_nonneg_unat)
  have se: "sint e = int (unat e)" using e0 by (rule sint_nonneg_unat)
  have ss: "sint ?sz = int (unat ?sz)" using s0 by (rule sint_nonneg_unat)
  show "unat b \<le> unat e" using D(2) sb se by linarith
  have lt: "unat e < unat ?sz" using D(3) se ss by linarith
  have "unat ?sz \<le> length impl" by (rule unat_of_nat_le)
  then show "unat e < length impl" using lt by linarith
  have "unat ?sz < 2 ^ 31" using s0 by (rule unat_nonneg_small)
  then show "Suc (unat e) < 2 ^ 31" using lt by linarith
  have qb: "unat (qBound s) = unat ?sz" using D(4) s0 by (simp add: unat_scast_nonneg)
  show "unat e < unat (qBound s)" using lt qb by simp
  show "unat (qBound s) \<le> length impl" using qb unat_of_nat_le[of "length impl", where 'w=32] by simp
qed

lemma unat_range_len:
  assumes "unat (b::c_int) \<le> unat e" and "Suc (unat e) < 2 ^ 31"
  shows "unat (scast (e + 1 - b) :: size_t) = Suc (unat e) - unat b"
proof -
  have e1: "unat (e + 1) = Suc (unat e)" using assms(2) by (simp add: unat_word_ariths)
  have le: "b \<le> e + 1" using assms(1) e1 by (simp add: word_le_nat_alt)
  have d: "unat (e + 1 - b) = Suc (unat e) - unat b" using le e1 by (simp add: unat_sub)
  have "unat (e + 1 - b) < 2 ^ 31" using d assms(2) by linarith
  then have "0 \<le> sint (e + 1 - b)" by (rule sint_nonneg_of_small)
  then show ?thesis using d by (simp add: unat_scast_nonneg)
qed

text \<open>
  C8 (as amended). On the container without secondary deque, for every range that
  \<^verbatim>\<open>_check_adj\<close> accepts and adjusts to \<open>[b, e]\<close>, \<^verbatim>\<open>secondary_vector\<close> returns
  value-initialised elements only, and their number is the smaller of the length
  \<open>e - b + 1\<close> of the range and the count \<^verbatim>\<open>_qCount\<close>; the marker is not touched.
\<close>

theorem secondary_vector_length:
  assumes "check_adj s end beg (myImplObj s) = Inr (e, b)"
  shows "secondary_vector sdflt s end beg h =
           (Inr (replicate (min (Suc (unat e) - unat b) (unat (qCount s))) sdflt), h)"
  using assms check_adj_Inr_nat(1,3)[OF assms]
  by (simp add: secondary_vector_def unat_min_word unat_range_len)

text \<open>
  Bound 5 and three pushes: the range \<open>[1, 4]\<close> has four elements, the count is 3,
  and the vector has three elements.
\<close>

theorem secondary_vector_length_witness:
  "secondary_vector (0::int) (fst (push_all [1, 2, 3] (Object_ctor (0::int) 5 empty_heap))) (- 1) 1
     (snd (push_all [1, 2, 3] (Object_ctor (0::int) 5 empty_heap)))
   = (Inr [0, 0, 0], snd (push_all [1, 2, 3] (Object_ctor (0::int) 5 empty_heap)))"
proof -
  let ?X = "push_all [1, 2, 3] (Object_ctor (0::int) 5 empty_heap)"
  have a: "check_adj (fst ?X) (- 1) 1 (myImplObj (fst ?X)) = Inr (4, 1)" by code_simp
  have q: "unat (qCount (fst ?X)) = 3" by code_simp
  have n: "min (Suc (unat (4::c_int)) - unat (1::c_int)) 3 = 3" by simp
  have r: "replicate 3 (0::int) = [0, 0, 0]" by code_simp
  from secondary_vector_length[OF a, of "0::int" "snd ?X"] show ?thesis
    by (simp only: q n r)
qed

text \<open>
  The claim C8 as stated fails on a new stream of bound 3: the range \<open>(-1, 0)\<close> is
  adjusted to \<open>[0, 2]\<close>, of length 3, and the vector returned is empty, since the
  count is 0.
\<close>

theorem secondary_vector_counterexample:
  "(let (s, h) = Object_ctor (0::int) 3 empty_heap
    in check_adj s (- 1) 0 (myImplObj s) = Inr (2, 0)
       \<and> fst (secondary_vector (0::int) s (- 1) 0 h) = Inr [])"
  by code_simp

section \<open>Copies into the caller's buffer\<close>

lemma copy_to_ptr_range:
  assumes be: "unat b \<le> unat e" and el: "unat e < length impl"
    and e31: "Suc (unat e) < 2 ^ 31" and nowrap: "unat sz + unat b < 2 ^ 64"
    and n: "n = min (unat sz) (min (Suc (unat e) - unat b) (unat (qCount s) - unat b))"
  shows "copy_to_ptr s impl d sz e b =
           (if n = 0 then Inr d else std_copy (take n (drop (unat b) impl)) d)"
proof -
  have e1: "unat (ucast (e + 1) :: size_t) = Suc (unat e)"
    using e31 by (simp add: unat_ucast_up unat_word_ariths)
  have sb: "unat (sz + ucast b) = unat sz + unat b"
    using nowrap unat_add_lem[of sz "ucast b :: size_t"] by (simp add: unat_ucast_up)
  have eI: "unat (min (sz + ucast b) (min (ucast (e + 1)) (qCount s)))
              = min (unat sz + unat b) (min (Suc (unat e)) (unat (qCount s)))"
    by (simp add: unat_min_word e1 sb)
  have nd: "min (unat sz + unat b) (min (Suc (unat e)) (unat (qCount s))) - unat b = n"
    unfolding n by (simp add: min_diff[symmetric])
  have le: "min (unat sz + unat b) (min (Suc (unat e)) (unat (qCount s))) \<le> length impl"
    using el by simp
  have bl: "unat b \<le> length impl" using be el by linarith
  show ?thesis
    using nd le bl unfolding copy_to_ptr_def Let_def eI
    by (auto simp: not_less)
qed

text \<open>
  C6. For every stream and every range that \<^verbatim>\<open>_check_adj\<close> accepts and adjusts to
  \<open>[b, e]\<close> with \<open>b \<noteq> e\<close> (so \<open>b < e\<close>), and a destination of at least \<open>sz\<close>
  elements (\<open>sz + b\<close> representable in \<^verbatim>\<open>size_t\<close>, as it is for the length of every
  buffer in memory): \<^verbatim>\<open>copy\<close> stores exactly
  \<open>n = min sz (min (e - b + 1) (C - b))\<close> elements, the elements
  \<open>P[b], P[b+1], \<dots>\<close> of the deque, at the front of the destination, leaves the rest
  of the destination as it was, and sets the marker to \<open>b - 1\<close>. The differences are
  those of natural numbers: nothing is stored when \<open>C \<le> b\<close>.
\<close>

theorem copy_range_snapshot:
  assumes adj: "check_adj s end beg (myImplObj s) = Inr (e, b)"
    and ne: "b \<noteq> e"
    and buf: "unat sz \<le> length d"
    and nowrap: "unat sz + unat b < 2 ^ 64"
  shows "let n = min (unat sz) (min (Suc (unat e) - unat b) (unat (qCount s) - unat b))
         in copy s (Some d) sz end beg h =
              (Inr (take n (drop (unat b) (myImplObj s)) @ drop n d),
               store (mrkCount s) (scast (b - 1)) h)
            \<and> length (take n (drop (unat b) (myImplObj s))) = n
            \<and> unat b < unat e \<and> unat e < length (myImplObj s)"
proof -
  define n where "n = min (unat sz) (min (Suc (unat e) - unat b) (unat (qCount s) - unat b))"
  note N = check_adj_Inr_nat[OF adj]
  have lt: "unat b < unat e"
    using N(1) ne by (metis le_neq_implies_less word_unat_eq_iff)
  have len: "length (take n (drop (unat b) (myImplObj s))) = n"
    using N(2) by (simp add: n_def)
  have nle: "n \<le> length d" using buf by (simp add: n_def)
  have cp: "copy_to_ptr s (myImplObj s) d sz e b
              = Inr (take n (drop (unat b) (myImplObj s)) @ drop n d)"
    using copy_to_ptr_range[OF N(1) N(2) N(3) nowrap n_def, of d] len nle
    by (auto simp: std_copy_def)
  have "copy s (Some d) sz end beg h =
              (Inr (take n (drop (unat b) (myImplObj s)) @ drop n d),
               store (mrkCount s) (scast (b - 1)) h)"
    using adj ne cp by (simp add: copy_def)
  then show ?thesis using len lt N(2) unfolding n_def[symmetric] Let_def by simp
qed

text \<open>
  Bound 5 and the pushes 1, 2, 3: the copy of the whole window into a buffer of five
  elements stores the three pushed values, newest first.
\<close>

theorem copy_range_snapshot_witness:
  "fst (copy (fst (push_all [1, 2, 3] (Object_ctor (0::int) 5 empty_heap))) (Some [9, 9, 9, 9, 9]) 5 (- 1) 0
          (snd (push_all [1, 2, 3] (Object_ctor (0::int) 5 empty_heap)))) = Inr [3, 2, 1, 9, 9]"
proof -
  let ?X = "push_all [1, 2, 3] (Object_ctor (0::int) 5 empty_heap)"
  have a: "check_adj (fst ?X) (- 1) 0 (myImplObj (fst ?X)) = Inr (4, 0)" by code_simp
  have b: "(0::c_int) \<noteq> 4" by simp
  have c: "unat (5::size_t) \<le> length [9, 9, 9, 9, 9::int]" by simp
  have d: "unat (5::size_t) + unat (0::c_int) < 2 ^ 64" by simp
  have n: "min (unat (5::size_t)) (min (Suc (unat (4::c_int)) - unat (0::c_int))
             (unat (qCount (fst ?X)) - unat (0::c_int))) = 3" by code_simp
  have t: "take 3 (drop (unat (0::c_int)) (myImplObj (fst ?X))) @ drop 3 [9, 9, 9, 9, 9] = [3, 2, 1, 9, 9]"
    by code_simp
  from copy_range_snapshot[OF a b c d, of "snd ?X"] show ?thesis
    unfolding Let_def n t by simp
qed

text \<open>
  Where the two branches of \<^verbatim>\<open>copy\<close> agree: for a range that is adjusted to the
  single index \<open>b\<close>, a destination length \<open>sz\<close> of at least 1 with \<open>sz + b\<close>
  representable in \<^verbatim>\<open>size_t\<close>, and an index below the count (\<open>b < C\<close>), the
  single-element branch gives the result of the range path: the same buffer (or the
  same failure) and the same marker.
\<close>

lemma copy_single_eq_range_path:
  assumes adj: "check_adj s end beg (myImplObj s) = Inr (b, b)"
    and sz: "sz \<noteq> 0"
    and cnt: "unat b < unat (qCount s)"
    and nowrap: "unat sz + unat b < 2 ^ 64"
  shows "copy s dest sz end beg h = copy_range_path s dest sz end beg h"
proof (cases dest)
  case None
  then show ?thesis by (simp add: copy_def copy_range_path_def)
next
  case (Some d)
  note N = check_adj_Inr_nat[OF adj]
  note D = check_adj_InrD[OF adj]
  have sz1: "1 \<le> unat sz" using sz by (simp add: unat_gt_0 Suc_le_eq)
  have n1: "min (unat sz) (min (Suc (unat b) - unat b) (unat (qCount s) - unat b)) = 1"
    using sz1 cnt by simp
  have rp: "copy_to_ptr s (myImplObj s) d sz b b = std_copy [myImplObj s ! unat b] d"
    using copy_to_ptr_range[OF N(1) N(2) N(3) nowrap n1[symmetric], of d] N(2)
    by (simp add: take_Suc_conv_app_nth[of 0] hd_drop_conv_nth take_Suc)
  have at: "deque_at (myImplObj s) (scast b) = Inr (myImplObj s ! unat b)"
    using N(2) D(1) by (simp add: deque_at_def unat_scast_nonneg)
  have fr: "b = 0 \<Longrightarrow> deque_front (myImplObj s) = Inr (myImplObj s ! unat b)"
    using N(2) by (cases "myImplObj s") (simp_all add: deque_front_def)
  have st: "store_ptr d x = std_copy [x] d" for x :: 'a
    by (cases d) (simp_all add: store_ptr_def std_copy_def)
  show ?thesis
    using Some adj rp at fr st by (simp add: copy_def copy_range_path_def)
qed

text \<open>
  Bound 5 and the pushes 1, 2, 3: the copy of the range \<open>[1, 1]\<close> into a buffer of
  one element agrees with the range path.
\<close>

lemma copy_single_eq_range_path_example:
  "copy (fst (push_all [1, 2, 3] (Object_ctor (0::int) 5 empty_heap))) (Some [9]) 1 1 1
        (snd (push_all [1, 2, 3] (Object_ctor (0::int) 5 empty_heap)))
     = copy_range_path (fst (push_all [1, 2, 3] (Object_ctor (0::int) 5 empty_heap))) (Some [9]) 1 1 1
        (snd (push_all [1, 2, 3] (Object_ctor (0::int) 5 empty_heap)))
   \<and> fst (copy_range_path (fst (push_all [1, 2, 3] (Object_ctor (0::int) 5 empty_heap))) (Some [9]) 1 1 1
        (snd (push_all [1, 2, 3] (Object_ctor (0::int) 5 empty_heap)))) = Inr [2]"
proof -
  let ?X = "push_all [1, 2, 3] (Object_ctor (0::int) 5 empty_heap)"
  have a: "check_adj (fst ?X) 1 1 (myImplObj (fst ?X)) = Inr (1, 1)" by code_simp
  have b: "(1::size_t) \<noteq> 0" by simp
  have c: "unat (1::c_int) < unat (qCount (fst ?X))" by code_simp
  have d: "unat (1::size_t) + unat (1::c_int) < 2 ^ 64" by simp
  have v: "fst (copy_range_path (fst ?X) (Some [9]) 1 1 1 (snd ?X)) = Inr [2]" by code_simp
  from copy_single_eq_range_path[OF a b c d, of "Some [9]" "snd ?X"] v show ?thesis
    by simp
qed

text \<open>
  C9 (the code departs from the claim). The single-element branch of \<^verbatim>\<open>copy\<close>
  looks neither at the destination length nor at the count, which the range branch
  \<^verbatim>\<open>_copy_to_ptr\<close> of the same function respects. On a new stream of bound 3
  (count 0), \<^verbatim>\<open>copy(dest, 1, 0, 0)\<close> stores the value-initialised front element,
  where the range path stores nothing. After three pushes, \<^verbatim>\<open>copy(dest, 0, 1, 1)\<close>
  with a destination length of 0 still stores one element, past the end of an empty
  buffer, where the range path stores nothing.
\<close>

theorem copy_single_element_branch_evaluates:
  "(let (s, h) = Object_ctor (0::int) 3 empty_heap
    in check_adj s 0 0 (myImplObj s) = Inr (0, 0)
       \<and> fst (copy s (Some [7]) 1 0 0 h) = Inr [0]
       \<and> fst (copy_range_path s (Some [7]) 1 0 0 h) = Inr [7])
   \<and> (let (s, h) = push_all [1, 2, 3] (Object_ctor (0::int) 3 empty_heap)
       in check_adj s 1 1 (myImplObj s) = Inr (1, 1)
          \<and> fst (copy s (Some [7]) 0 1 1 h) = Inr [2]
          \<and> fst (copy_range_path s (Some [7]) 0 1 1 h) = Inr [7]
          \<and> fst (copy s (Some []) 0 1 1 h) = Inl undefined_behaviour
          \<and> fst (copy_range_path s (Some []) 0 1 1 h) = Inr [])"
  by code_simp

section \<open>Push sequences\<close>

lemma push_fields:
  "myImplObj (fst (push v s h)) = butlast (v # myImplObj s)"
  "qBound (fst (push v s h)) = qBound s"
  "mrkCount (fst (push v s h)) = mrkCount s"
  "qCount (fst (push v s h)) = (if qCount s < qBound s then qCount s + 1 else qCount s)"
  by (simp_all add: push_def push_front_pop_back_def Let_def)

lemma unat_incr_below:
  assumes "(c::size_t) < b"
  shows "unat (c + 1) = Suc (unat c)"
proof -
  have "unat c < unat b" using assms by (simp add: word_less_nat_alt)
  moreover have "unat b < 2 ^ 64" using unsigned_less[of b, where 'a=nat] by simp
  ultimately have "unat c + unat (1::size_t) < 2 ^ LENGTH(64)" by simp
  then have "unat (c + 1) = unat c + unat (1::size_t)" by (simp only: unat_add_lem)
  then show ?thesis by simp
qed

lemma incr_le_below: "(c::size_t) < b \<Longrightarrow> c + 1 \<le> b"
  by (simp add: inc_le)

lemma push_count:
  assumes "qCount s \<le> qBound s"
  shows "unat (qCount (fst (push v s h))) = min (Suc (unat (qCount s))) (unat (qBound s))"
proof (cases "qCount s < qBound s")
  case True
  then have "unat (qCount s) < unat (qBound s)" by (simp add: word_less_nat_alt)
  then show ?thesis using True by (simp add: push_fields unat_incr_below)
next
  case False
  then have "qCount s = qBound s" using assms by simp
  then show ?thesis by (simp add: push_fields)
qed

lemma push_length: "length (myImplObj (fst (push v s h))) = length (myImplObj s)"
  by (simp add: push_fields(1))

lemma push_wf:
  assumes "wf_stream s"
  shows "wf_stream (fst (push v s h))"
  using assms by (simp add: wf_stream_def push_length push_fields(2,4) incr_le_below)

lemma push_deque_wf:
  "myImplObj (fst (push v s h)) = take (length (myImplObj s)) (v # myImplObj s)"
  by (simp add: push_fields butlast_conv_take)

lemma take_append_take: "take n (xs @ take n ys) = take n (xs @ ys)"
  by (simp add: min_def)

lemma push_all_state:
  assumes "wf_stream s"
  shows "wf_stream (fst (push_all vs (s, h)))
       \<and> myImplObj (fst (push_all vs (s, h))) = take (length (myImplObj s)) (rev vs @ myImplObj s)
       \<and> unat (qCount (fst (push_all vs (s, h)))) = min (unat (qCount s) + length vs) (unat (qBound s))
       \<and> qBound (fst (push_all vs (s, h))) = qBound s
       \<and> mrkCount (fst (push_all vs (s, h))) = mrkCount s"
  using assms
proof (induction vs arbitrary: s h)
  case Nil
  then show ?case by (simp add: wf_stream_def word_le_nat_alt)
next
  case (Cons v vs)
  let ?s1 = "fst (push v s h)" and ?h1 = "snd (push v s h)"
  have wf1: "wf_stream ?s1" using Cons.prems by (rule push_wf)
  have len1: "length (myImplObj ?s1) = length (myImplObj s)"
    by (rule push_length)
  have cle: "qCount s \<le> qBound s" using Cons.prems by (simp add: wf_stream_def)
  note IH = Cons.IH[OF wf1, of ?h1]
  have step: "push_all (v # vs) (s, h) = push_all vs (?s1, ?h1)" by simp
  have dq: "take (length (myImplObj s)) (rev vs @ myImplObj ?s1)
              = take (length (myImplObj s)) (rev (v # vs) @ myImplObj s)"
    using take_append_take[of "length (myImplObj s)" "rev vs" "v # myImplObj s"]
    by (simp add: push_deque_wf)
  have ct: "min (unat (qCount ?s1) + length vs) (unat (qBound s))
              = min (unat (qCount s) + length (v # vs)) (unat (qBound s))"
    by (simp add: push_count[OF cle])
  show ?case
    unfolding step using IH dq ct by (simp add: len1 push_fields(2,3))
qed

lemma Object_ctor_fields:
  "myImplObj (fst (Object_ctor dflt sz h)) = replicate (unat (min sz MAX_BOUND_SIZE)) dflt"
  "qBound (fst (Object_ctor dflt sz h)) = min sz MAX_BOUND_SIZE"
  "qCount (fst (Object_ctor dflt sz h)) = 0"
  "mrkCount (fst (Object_ctor dflt sz h)) = Suc (brk h)"
  "mtx (fst (Object_ctor dflt sz h)) = brk h"
  by (simp_all add: Object_ctor_def new_mutex_def new_size_t_def)

lemma Object_ctor_wf: "wf_stream (fst (Object_ctor dflt sz h))"
  by (simp add: wf_stream_def Object_ctor_fields)

lemma wf_length_small: "wf_stream s \<Longrightarrow> length (myImplObj s) < 2 ^ 31"
proof -
  assume "wf_stream s"
  then have "length (myImplObj s) = unat (qBound s)" and "unat (qBound s) \<le> unat MAX_BOUND_SIZE"
    by (simp_all add: wf_stream_def word_le_nat_alt)
  then show ?thesis by (simp add: MAX_BOUND_SIZE_def)
qed

section \<open>Indexed reads\<close>

lemma check_adj_index:
  assumes len: "length impl = unat (qBound s)" and bnd: "qBound s \<le> MAX_BOUND_SIZE"
    and i: "i < length impl"
  shows "check_adj s (of_nat i) 0 impl = Inr (of_nat i, 0)"
proof -
  have "unat (qBound s) \<le> unat MAX_BOUND_SIZE" using bnd by (simp add: word_le_nat_alt)
  then have L: "length impl < 2 ^ 31" using len by (simp add: MAX_BOUND_SIZE_def)
  have i31: "i < 2 ^ 31" using i L by linarith
  have "(scast (of_nat (length impl) :: c_int) :: size_t) = of_nat (length impl)"
    using L by (rule scast_of_nat_small)
  also have "\<dots> = qBound s" unfolding len by simp
  finally have q: "qBound s = scast (of_nat (length impl) :: c_int)" by (rule sym)
  show ?thesis
    using i q by (auto simp add: check_adj_def Let_def word_sle_eq word_sless_alt
        sint_of_nat_small[OF L] sint_of_nat_small[OF i31])
qed

lemma sint_diff_of_nat:
  assumes "i < 2 ^ 31" and "n < 2 ^ 31"
  shows "sint (of_nat i - of_nat n :: c_int) = int i - int n"
proof -
  have "sint (of_nat i - of_nat n :: c_int) = signed_take_bit 31 (int i - int n)"
    using assms by (simp add: sint_word_ariths sint_of_nat_small)
  also have "\<dots> = int i - int n"
    using assms by (intro signed_take_bit_int_eq_self) simp_all
  finally show ?thesis .
qed

lemma check_adj_index_neg:
  assumes len: "length impl = unat (qBound s)" and bnd: "qBound s \<le> MAX_BOUND_SIZE"
    and i: "i < length impl"
  shows "check_adj s (of_nat i - of_nat (length impl)) 0 impl = Inr (of_nat i, 0)"
proof -
  have "unat (qBound s) \<le> unat MAX_BOUND_SIZE" using bnd by (simp add: word_le_nat_alt)
  then have L: "length impl < 2 ^ 31" using len by (simp add: MAX_BOUND_SIZE_def)
  have i31: "i < 2 ^ 31" using i L by linarith
  have "(scast (of_nat (length impl) :: c_int) :: size_t) = of_nat (length impl)"
    using L by (rule scast_of_nat_small)
  also have "\<dots> = qBound s" unfolding len by simp
  finally have q: "qBound s = scast (of_nat (length impl) :: c_int)" by (rule sym)
  have neg: "sint (of_nat i - of_nat (length impl) :: c_int) < 0"
    using i by (simp add: sint_diff_of_nat[OF i31 L])
  show ?thesis
    using i q neg by (auto simp add: check_adj_def Let_def word_sle_eq word_sless_alt
        sint_of_nat_small[OF L] sint_of_nat_small[OF i31])
qed

lemma scast_pred_of_nat:
  assumes "i < 2 ^ 31"
  shows "(scast (of_nat i - 1 :: c_int) :: size_t) = (if i = 0 then - 1 else of_nat (i - 1))"
proof (cases i)
  case 0
  then show ?thesis by simp
next
  case (Suc k)
  then have "k < 2 ^ 31" using assms by simp
  then show ?thesis using Suc by (simp add: scast_of_nat_small)
qed

lemma deque_at_index:
  assumes "i < length xs" and "i < 2 ^ 31"
  shows "deque_at xs (scast (of_nat i :: c_int)) = Inr (xs ! i)"
  using assms by (simp add: deque_at_def scast_of_nat_small unat_of_nat_size_t)

lemma of_nat_c_int_eq_0:
  assumes "i < 2 ^ 31"
  shows "(of_nat i :: c_int) = 0 \<longleftrightarrow> i = 0"
proof
  assume "(of_nat i :: c_int) = 0"
  then have "unat (of_nat i :: c_int) = 0" by simp
  then show "i = 0" using unat_of_nat_small[OF assms] by simp
next
  assume "i = 0"
  then show "(of_nat i :: c_int) = 0" by simp
qed

lemma operator_at_adjusted:
  assumes adj: "check_adj s indx 0 (myImplObj s) = Inr (of_nat i, 0)"
    and i: "i < length (myImplObj s)" and i31: "i < 2 ^ 31" and nz: "indx \<noteq> 0"
  shows "operator_at s indx h =
           (Inr (Generic (myImplObj s ! i)),
            store (mrkCount s) (if i = 0 then - 1 else of_nat (i - 1)) h)"
  using adj nz deque_at_index[OF i i31] scast_pred_of_nat[OF i31]
  by (simp add: operator_at_def Let_def)

lemma operator_at_front:
  assumes "myImplObj s \<noteq> []"
  shows "operator_at s 0 h = (Inr (Generic (hd (myImplObj s))), store (mrkCount s) (- 1) h)"
  using assms by (cases "myImplObj s") (simp_all add: operator_at_def deque_front_def)

lemma operator_at_wf:
  assumes wf: "wf_stream s" and i: "i < length (myImplObj s)"
  shows "operator_at s (of_nat i) h =
           (Inr (Generic (myImplObj s ! i)),
            store (mrkCount s) (if i = 0 then - 1 else of_nat (i - 1)) h)"
proof (cases "i = 0")
  case True
  then show ?thesis using i operator_at_front[of s h] by (simp add: hd_conv_nth)
next
  case False
  have len: "length (myImplObj s) = unat (qBound s)" and bnd: "qBound s \<le> MAX_BOUND_SIZE"
    using wf by (simp_all add: wf_stream_def)
  have i31: "i < 2 ^ 31" using i wf_length_small[OF wf] by linarith
  have nz: "(of_nat i :: c_int) \<noteq> 0" using False by (simp add: of_nat_c_int_eq_0[OF i31])
  show ?thesis
    by (rule operator_at_adjusted[OF check_adj_index[OF len bnd i] i i31 nz])
qed

lemma operator_at_wf_neg:
  assumes wf: "wf_stream s" and i: "i < length (myImplObj s)"
  shows "operator_at s (of_nat i - of_nat (length (myImplObj s))) h =
           (Inr (Generic (myImplObj s ! i)),
            store (mrkCount s) (if i = 0 then - 1 else of_nat (i - 1)) h)"
proof -
  have len: "length (myImplObj s) = unat (qBound s)" and bnd: "qBound s \<le> MAX_BOUND_SIZE"
    using wf by (simp_all add: wf_stream_def)
  have L: "length (myImplObj s) < 2 ^ 31" by (rule wf_length_small[OF wf])
  have i31: "i < 2 ^ 31" using i L by linarith
  have "sint (of_nat i - of_nat (length (myImplObj s)) :: c_int) \<noteq> 0"
    using i by (simp add: sint_diff_of_nat[OF i31 L])
  then have nz: "(of_nat i - of_nat (length (myImplObj s)) :: c_int) \<noteq> 0"
    by auto
  show ?thesis
    by (rule operator_at_adjusted[OF check_adj_index_neg[OF len bnd i] i i31 nz])
qed

text \<open>
  C3. After the constructor and any sequence \<open>vs\<close> of pushes, for every
  \<open>i < size()\<close>: the indexed read at \<open>i\<close> returns the wrapped \<open>(i+1)\<close>-th most recent
  pushed value and sets the marker to \<open>-1\<close> when \<open>i = 0\<close> and to \<open>i - 1\<close> otherwise.
  The negative index \<open>i - B\<close>, which \<^verbatim>\<open>_check_adj\<close> adjusts to \<open>i\<close> by adding the
  bound, gives the same result.
\<close>

theorem operator_at_after_pushes:
  assumes run: "push_all vs (Object_ctor dflt sz h0) = (s, h)"
    and i: "i < unat (qCount s)"
  shows "operator_at s (of_nat i) h =
           (Inr (Generic (rev vs ! i)),
            store (mrkCount s) (if i = 0 then - 1 else of_nat (i - 1)) h)
       \<and> operator_at s (of_nat i - of_nat (unat (qBound s))) h =
           (Inr (Generic (rev vs ! i)),
            store (mrkCount s) (if i = 0 then - 1 else of_nat (i - 1)) h)"
proof -
  let ?s0 = "fst (Object_ctor dflt sz h0)" and ?h0 = "snd (Object_ctor dflt sz h0)"
  have wf0: "wf_stream ?s0" by (rule Object_ctor_wf)
  have s: "s = fst (push_all vs (?s0, ?h0))" using run by simp
  note P = push_all_state[OF wf0, of vs ?h0, folded s]
  have wf: "wf_stream s" using P by simp
  have len: "length (myImplObj s) = unat (qBound s)" using wf by (simp add: wf_stream_def)
  have cnt: "unat (qCount s) = min (length vs) (unat (qBound s))"
    using P by (simp add: Object_ctor_fields)
  have il: "i < length vs" and ib: "i < length (myImplObj s)" using i cnt len by simp_all
  have dq: "myImplObj s = take (length (myImplObj ?s0)) (rev vs @ myImplObj ?s0)"
    using P by simp
  have "length (myImplObj s) \<le> length (myImplObj ?s0)"
    by (subst dq) (simp only: length_take min.cobounded2)
  then have "i < length (myImplObj ?s0)" using ib by linarith
  then have "take (length (myImplObj ?s0)) (rev vs @ myImplObj ?s0) ! i
               = (rev vs @ myImplObj ?s0) ! i" by (rule nth_take)
  then have "myImplObj s ! i = (rev vs @ myImplObj ?s0) ! i"
    using dq by simp
  then have el: "myImplObj s ! i = rev vs ! i" using il by (simp add: nth_append)
  show ?thesis
    using operator_at_wf[OF wf ib, of h] operator_at_wf_neg[OF wf ib, of h] el len by simp
qed

text \<open>
  Bound 3 and the pushes 1, 2, 3, 4: the read at index 1, and the read at index
  \<open>-2\<close>, return 3.
\<close>

theorem operator_at_after_pushes_witness:
  "fst (operator_at (fst (push_all [1, 2, 3, 4] (Object_ctor (0::int) 3 empty_heap))) 1
          (snd (push_all [1, 2, 3, 4] (Object_ctor (0::int) 3 empty_heap)))) = Inr (Generic 3)
   \<and> fst (operator_at (fst (push_all [1, 2, 3, 4] (Object_ctor (0::int) 3 empty_heap))) (- 2)
          (snd (push_all [1, 2, 3, 4] (Object_ctor (0::int) 3 empty_heap)))) = Inr (Generic 3)"
proof -
  let ?X = "push_all [1, 2, 3, 4] (Object_ctor (0::int) 3 empty_heap)"
  have r: "?X = (fst ?X, snd ?X)" by simp
  have i: "(1::nat) < unat (qCount (fst ?X))" by code_simp
  have q: "unat (qBound (fst ?X)) = 3" by code_simp
  have e: "rev [1, 2, 3, 4::int] ! 1 = 3" by code_simp
  have n: "(of_nat 1 - of_nat 3 :: c_int) = - 2" by simp
  from operator_at_after_pushes[OF r i] show ?thesis
    unfolding q e n by simp
qed

section \<open>Paired reads\<close>

lemma push_sec_eq:
  "push_sec v x p h =
     (\<lparr>base = fst (push v (base p) h),
       myImplSecObj = take (length (myImplSecObj p)) (x # myImplSecObj p)\<rparr>,
      snd (push v (base p) h))"
  by (simp add: push_sec_def push_def push_front_pop_back_def Let_def butlast_conv_take)

lemma push_all_sec_state:
  "base (fst (push_all_sec ps (p, h))) = fst (push_all (map fst ps) (base p, h))
   \<and> snd (push_all_sec ps (p, h)) = snd (push_all (map fst ps) (base p, h))
   \<and> myImplSecObj (fst (push_all_sec ps (p, h)))
       = take (length (myImplSecObj p)) (rev (map snd ps) @ myImplSecObj p)"
proof (induction ps arbitrary: p h)
  case Nil
  then show ?case by simp
next
  case (Cons vx ps)
  let ?p1 = "\<lparr>base = fst (push (fst vx) (base p) h),
              myImplSecObj = take (length (myImplSecObj p)) (snd vx # myImplSecObj p)\<rparr>"
  let ?h1 = "snd (push (fst vx) (base p) h)"
  have step: "push_all_sec (vx # ps) (p, h) = push_all_sec ps (?p1, ?h1)"
    by (simp add: push_sec_eq)
  have len: "length (myImplSecObj ?p1) = length (myImplSecObj p)" by simp
  have dq: "take (length (myImplSecObj p)) (rev (map snd ps) @ myImplSecObj ?p1)
              = take (length (myImplSecObj p)) (rev (map snd (vx # ps)) @ myImplSecObj p)"
    using take_append_take[of "length (myImplSecObj p)" "rev (map snd ps)" "snd vx # myImplSecObj p"]
    by simp
  show ?case
    unfolding step using Cons.IH[of ?p1 ?h1] dq by (simp add: len)
qed

lemma Object_sec_ctor_eq:
  "Object_sec_ctor dflt sdflt sz h =
     (\<lparr>base = fst (Object_ctor dflt sz h),
       myImplSecObj = replicate (unat (min sz MAX_BOUND_SIZE)) sdflt\<rparr>,
      snd (Object_ctor dflt sz h))"
  by (simp add: Object_sec_ctor_def Object_ctor_def new_mutex_def new_size_t_def)

lemma both_wf:
  assumes wf: "wf_stream (base p)"
    and lq: "length (myImplSecObj p) = length (myImplObj (base p))"
    and i: "i < length (myImplObj (base p))"
  shows "both p (of_nat i) h =
           (Inr (Generic (myImplObj (base p) ! i), myImplSecObj p ! i),
            store (mrkCount (base p)) (if i = 0 then - 1 else of_nat (i - 1)) h)"
proof (cases "i = 0")
  case True
  have "myImplSecObj p \<noteq> []" using i lq by auto
  then have "deque_front (myImplSecObj p) = Inr (myImplSecObj p ! 0)"
    by (cases "myImplSecObj p") (simp_all add: deque_front_def)
  then show ?thesis
    using True operator_at_wf[OF wf i, of h] by (simp add: both_def)
next
  case False
  have len: "length (myImplSecObj p) = unat (qBound (base p))"
    and bnd: "qBound (base p) \<le> MAX_BOUND_SIZE"
    using wf lq by (simp_all add: wf_stream_def)
  have iq: "i < length (myImplSecObj p)" using i lq by simp
  have i31: "i < 2 ^ 31" using i wf_length_small[OF wf] by linarith
  have nz: "(of_nat i :: c_int) \<noteq> 0" using False by (simp add: of_nat_c_int_eq_0[OF i31])
  show ?thesis
    using nz operator_at_wf[OF wf i, of h] check_adj_index[OF len bnd iq]
      deque_at_index[OF iq i31]
    by (simp add: both_def)
qed

text \<open>
  C7. After the constructor of the container with secondary deque and any sequence
  \<open>ps\<close> of pushes \<open>(v, s)\<close>, for every \<open>i < size()\<close>: \<^verbatim>\<open>both(i)\<close> returns the pair of the
  \<open>(i+1)\<close>-th most recent push. The two deques have the same length and, zipped,
  are the pushed pairs, newest first, followed by value-initialised pairs, cut at the
  bound: they stay in lock-step.
\<close>

theorem both_after_pushes:
  assumes run: "push_all_sec ps (Object_sec_ctor dflt sdflt sz h0) = (p, h)"
    and i: "i < unat (qCount (base p))"
  shows "both p (of_nat i) h =
           (Inr (Generic (fst (rev ps ! i)), snd (rev ps ! i)),
            store (mrkCount (base p)) (if i = 0 then - 1 else of_nat (i - 1)) h)
       \<and> length (myImplSecObj p) = length (myImplObj (base p))
       \<and> zip (myImplObj (base p)) (myImplSecObj p) =
           take (unat (qBound (base p)))
             (rev ps @ replicate (unat (qBound (base p))) (dflt, sdflt))"
proof -
  let ?B = "unat (min sz MAX_BOUND_SIZE)"
  let ?s0 = "fst (Object_ctor dflt sz h0)" and ?h0 = "snd (Object_ctor dflt sz h0)"
  let ?p0 = "\<lparr>base = ?s0, myImplSecObj = replicate ?B sdflt\<rparr>"
  have wf0: "wf_stream ?s0" by (rule Object_ctor_wf)
  have p: "p = fst (push_all_sec ps (?p0, ?h0))" using run by (simp add: Object_sec_ctor_eq)
  note S = push_all_sec_state[of ps ?p0 ?h0, folded p]
  have b: "base p = fst (push_all (map fst ps) (?s0, ?h0))" using S by simp
  note P = push_all_state[OF wf0, of "map fst ps" ?h0, folded b]
  have wf: "wf_stream (base p)" using P by simp
  have qb: "unat (qBound (base p)) = ?B" using P by (simp add: Object_ctor_fields)
  have dP: "myImplObj (base p) = take ?B (rev (map fst ps) @ replicate ?B dflt)"
    using P by (simp add: Object_ctor_fields)
  have dQ: "myImplSecObj p = take ?B (rev (map snd ps) @ replicate ?B sdflt)"
    using S by simp
  have lq: "length (myImplSecObj p) = length (myImplObj (base p))"
    by (simp add: dP dQ)
  have "zip (myImplObj (base p)) (myImplSecObj p)
          = take ?B (zip (rev (map fst ps) @ replicate ?B dflt)
                         (rev (map snd ps) @ replicate ?B sdflt))"
    by (simp add: dP dQ take_zip)
  also have "zip (rev (map fst ps) @ replicate ?B dflt) (rev (map snd ps) @ replicate ?B sdflt)
          = zip (map fst (rev ps)) (map snd (rev ps)) @ replicate ?B (dflt, sdflt)"
    by (simp add: rev_map zip_replicate)
  also have "zip (map fst (rev ps)) (map snd (rev ps)) = rev ps"
    by (rule zip_map_fst_snd)
  finally have z: "zip (myImplObj (base p)) (myImplSecObj p)
                     = take ?B (rev ps @ replicate ?B (dflt, sdflt))" .
  have cnt: "unat (qCount (base p)) = min (length ps) ?B"
    using P by (simp add: Object_ctor_fields)
  have len: "length (myImplObj (base p)) = ?B" using wf qb by (simp add: wf_stream_def)
  have il: "i < length ps" and ib: "i < length (myImplObj (base p))" and iB: "i < ?B"
    using i cnt len by simp_all
  have iz: "i < length (zip (myImplObj (base p)) (myImplSecObj p))" using ib lq by simp
  have "zip (myImplObj (base p)) (myImplSecObj p) ! i = (rev ps @ replicate ?B (dflt, sdflt)) ! i"
    unfolding z using iB by (rule nth_take)
  also have "\<dots> = rev ps ! i" using il by (simp add: nth_append)
  finally have "(myImplObj (base p) ! i, myImplSecObj p ! i) = rev ps ! i"
    using iz by simp
  then have el: "myImplObj (base p) ! i = fst (rev ps ! i)" "myImplSecObj p ! i = snd (rev ps ! i)"
    by (metis fst_conv, metis snd_conv)
  show ?thesis
    using both_wf[OF wf lq ib, of h] el lq z qb by simp
qed

text \<open>
  Bound 2 and the pushes \<open>(10, t1)\<close>, \<open>(20, t2)\<close>: \<^verbatim>\<open>both(1)\<close> is the older pair.
\<close>

theorem both_after_pushes_witness:
  "fst (both (fst (push_all_sec [(10, ''t1''), (20, ''t2'')] (Object_sec_ctor (0::int) [] 2 empty_heap))) 1
          (snd (push_all_sec [(10, ''t1''), (20, ''t2'')] (Object_sec_ctor (0::int) [] 2 empty_heap))))
     = Inr (Generic 10, ''t1'')"
proof -
  let ?X = "push_all_sec [(10, ''t1''), (20, ''t2'')] (Object_sec_ctor (0::int) [] 2 empty_heap)"
  have r: "?X = (fst ?X, snd ?X)" by simp
  have i: "(1::nat) < unat (qCount (base (fst ?X)))" by code_simp
  have e: "rev [(10::int, ''t1''), (20, ''t2'')] ! 1 = (10, ''t1'')" by code_simp
  from both_after_pushes[OF r i] show ?thesis
    unfolding e by simp
qed

section \<open>Resizing and histories\<close>

lemma bound_size_eq:
  "bound_size dflt newB s h =
     ((s\<lparr>myImplObj := resize (unat (min newB MAX_BOUND_SIZE)) dflt (myImplObj s),
          qCount := (if min newB MAX_BOUND_SIZE < qCount s then min newB MAX_BOUND_SIZE else qCount s),
          qBound := min newB MAX_BOUND_SIZE\<rparr>,
       min newB MAX_BOUND_SIZE), h)"
  by (simp add: bound_size_def Let_def)

lemma resize_props:
  "length (resize n dflt xs) = n"
  "take (min n (length xs)) (resize n dflt xs) = take n xs"
  "drop (length xs) (resize n dflt xs) = replicate (n - length xs) dflt"
  by (simp_all add: resize_def min_def)

text \<open>
  C5 (as amended). \<^verbatim>\<open>bound_size(newB)\<close> clamps \<open>newB\<close> from above to
  \<^verbatim>\<open>MAX_BOUND_SIZE\<close> (there is no lower clamp), returns the clamped value \<open>r\<close> and
  makes it the bound. The deque gets \<open>r\<close> elements: its first \<open>min r (length P)\<close>
  elements are kept, elements at the back are dropped when it shrinks and
  value-initialised elements are appended when it grows. The count becomes \<open>r\<close> when
  \<open>r\<close> is below it. The marker pointer and the store are unchanged. The container
  with secondary deque resizes the secondary deque in the same way and then does
  what the base class does.
\<close>

theorem bound_size_resizes:
  "(let r = min newB MAX_BOUND_SIZE;
        ((s', ret), h') = bound_size dflt newB s h
    in ret = r \<and> qBound s' = r \<and> length (myImplObj s') = unat r
       \<and> take (min (unat r) (length (myImplObj s))) (myImplObj s') = take (unat r) (myImplObj s)
       \<and> drop (length (myImplObj s)) (myImplObj s')
            = replicate (unat r - length (myImplObj s)) dflt
       \<and> qCount s' = (if r < qCount s then r else qCount s)
       \<and> mrkCount s' = mrkCount s \<and> h' = h)
   \<and> (let r = min newB MAX_BOUND_SIZE;
           ((p', ret), h') = bound_size_sec dflt sdflt newB p h
       in ret = r \<and> ((base p', ret), h') = bound_size dflt newB (base p) h
          \<and> length (myImplSecObj p') = unat r
          \<and> take (min (unat r) (length (myImplSecObj p))) (myImplSecObj p')
               = take (unat r) (myImplSecObj p)
          \<and> drop (length (myImplSecObj p)) (myImplSecObj p')
               = replicate (unat r - length (myImplSecObj p)) sdflt)"
  by (simp add: bound_size_sec_def bound_size_eq Let_def resize_props)

text \<open>
  The claim C5 as stated fails twice. A resize to 0 is not raised to 1: the bound
  becomes 0 and the deque empty. And with four elements and the marker at 2, a
  resize to 2 leaves the marker at 2; it is not clamped to 1.
\<close>

theorem bound_size_counterexample:
  "(let (s, h) = Object_ctor (0::int) 4 empty_heap;
        ((s', ret), h') = bound_size 0 0 s h
    in ret = 0 \<and> qBound s' = 0 \<and> myImplObj s' = [])
   \<and> (let (s, h) = Object_ctor (0::int) 4 empty_heap;
           (s, h) = push 1 s h;
           (s, h) = push 2 s h;
           (s, h) = push 3 s h;
           (s, h) = push 4 s h;
           (x, h) = operator_at s 3 h;
           ((s', ret), h') = bound_size 0 2 s h
       in load (mrkCount s) h = 2 \<and> ret = 2 \<and> load (mrkCount s') h' = 2
          \<and> load (mrkCount s') h' \<noteq> 1)"
  by code_simp

lemma unused_default_ctor: "unused_default dflt (fst (Object_ctor dflt sz h))"
  by (simp add: unused_default_def Object_ctor_fields)

lemma unused_default_push:
  assumes wf: "wf_stream s" and ud: "unused_default dflt s"
  shows "unused_default dflt (fst (push v s h))"
proof -
  let ?L = "length (myImplObj s)" and ?C = "unat (qCount s)"
  have len: "?L = unat (qBound s)" and cle: "qCount s \<le> qBound s"
    using wf by (simp_all add: wf_stream_def)
  have CL: "?C \<le> ?L" using len cle by (simp add: word_le_nat_alt)
  have ud': "drop ?C (myImplObj s) = replicate (?L - ?C) dflt"
    using ud by (simp add: unused_default_def)
  have c': "unat (qCount (fst (push v s h))) = min (Suc ?C) ?L"
    using push_count[OF cle, of v h] len by simp
  have "drop (min (Suc ?C) ?L) (take ?L (v # myImplObj s))
          = replicate (?L - min (Suc ?C) ?L) dflt"
  proof (cases "?C < ?L")
    case True
    then have m: "min (Suc ?C) ?L = Suc ?C" by simp
    have "drop (Suc ?C) (take ?L (v # myImplObj s))
            = take (?L - Suc ?C) (drop ?C (myImplObj s))"
      by (simp add: drop_take)
    also have "\<dots> = replicate (?L - Suc ?C) dflt"
      by (simp add: ud' min_def)
    finally show ?thesis using m by simp
  next
    case False
    then show ?thesis using CL by simp
  qed
  then show ?thesis
    by (simp add: unused_default_def push_deque_wf c' push_length[simplified push_deque_wf])
qed

lemma bound_size_wf: "wf_stream s \<Longrightarrow> wf_stream (fst (fst (bound_size dflt n s h)))"
  by (auto simp: wf_stream_def bound_size_eq resize_props not_less)

lemma unused_default_bound_size:
  assumes wf: "wf_stream s" and ud: "unused_default dflt s"
  shows "unused_default dflt (fst (fst (bound_size dflt n s h)))"
proof -
  let ?L = "length (myImplObj s)" and ?C = "unat (qCount s)"
  let ?n = "unat (min n MAX_BOUND_SIZE)"
  have len: "?L = unat (qBound s)" and cle: "qCount s \<le> qBound s"
    using wf by (simp_all add: wf_stream_def)
  have CL: "?C \<le> ?L" using len cle by (simp add: word_le_nat_alt)
  have ud': "drop ?C (myImplObj s) = replicate (?L - ?C) dflt"
    using ud by (simp add: unused_default_def)
  show ?thesis
  proof (cases "min n MAX_BOUND_SIZE < qCount s")
    case True
    then have "?n < ?C" by (simp add: word_less_nat_alt)
    then show ?thesis using True CL
      by (simp add: unused_default_def bound_size_eq resize_def)
  next
    case False
    then have nC: "?C \<le> ?n" by (simp add: word_less_nat_alt not_less)
    have "drop ?C (take ?n (myImplObj s) @ replicate (?n - ?L) dflt)
            = take (?n - ?C) (drop ?C (myImplObj s)) @ replicate (?n - ?L) dflt"
      using nC CL by (simp add: drop_take)
    also have "\<dots> = replicate (min (?L - ?C) (?n - ?C)) dflt @ replicate (?n - ?L) dflt"
      by (simp add: ud' min.commute)
    also have "\<dots> = replicate (?n - ?C) dflt"
      using nC CL by (simp add: replicate_add[symmetric] min_def)
    finally show ?thesis using False
      by (simp add: unused_default_def bound_size_eq resize_def)
  qed
qed

lemma run_invariant:
  assumes "wf_stream s" and "unused_default dflt s"
  shows "wf_stream (fst (run dflt ops (s, h))) \<and> unused_default dflt (fst (run dflt ops (s, h)))"
  using assms
proof (induction ops arbitrary: s h)
  case Nil
  then show ?case by simp
next
  case (Cons op ops)
  show ?case
  proof (cases op)
    case (Push v)
    obtain s1 h1 where p: "push v s h = (s1, h1)" by (cases "push v s h")
    have w1: "wf_stream s1" using push_wf[OF Cons.prems(1), of v h] p by simp
    have u1: "unused_default dflt s1" using unused_default_push[OF Cons.prems, of v h] p by simp
    show ?thesis
      using Cons.IH[OF w1 u1, of h1] by (simp add: Push p)
  next
    case (Resize n)
    show ?thesis
      using Cons.IH[OF bound_size_wf[OF Cons.prems(1), of dflt n h]
          unused_default_bound_size[OF Cons.prems, of n h], of "snd (bound_size dflt n s h)"]
      by (simp add: Resize)
  qed
qed

text \<open>
  C10 (as amended). For every stream whose deque is not empty (bound at least 1), the
  indexed read at 0 succeeds without any check of the index or of the size of the
  deque against the bound (the first part holds whatever \<^verbatim>\<open>_qBound\<close> is): it
  returns the wrapped front element and sets the marker to the unset value. After
  the constructor and any history of pushes and resizes, a stream with count 0 and
  bound at least 1 returns the value-initialised element.
\<close>

theorem operator_at_zero:
  "(myImplObj s \<noteq> [] \<longrightarrow>
      operator_at s 0 h = (Inr (Generic (hd (myImplObj s))), store (mrkCount s) (- 1) h))
   \<and> (run dflt ops (Object_ctor dflt sz h0) = (s, h) \<and> qBound s \<noteq> 0 \<and> qCount s = 0 \<longrightarrow>
      operator_at s 0 h = (Inr (Generic dflt), store (mrkCount s) (- 1) h))"
proof (intro conjI impI)
  assume "myImplObj s \<noteq> []"
  then show "operator_at s 0 h = (Inr (Generic (hd (myImplObj s))), store (mrkCount s) (- 1) h)"
    by (rule operator_at_front)
next
  assume a: "run dflt ops (Object_ctor dflt sz h0) = (s, h) \<and> qBound s \<noteq> 0 \<and> qCount s = 0"
  let ?s0 = "fst (Object_ctor dflt sz h0)" and ?h0 = "snd (Object_ctor dflt sz h0)"
  have s: "s = fst (run dflt ops (?s0, ?h0))" using a by simp
  note I = run_invariant[OF Object_ctor_wf unused_default_ctor, of dflt ops sz h0 ?h0, folded s]
  have len: "length (myImplObj s) = unat (qBound s)" using I by (simp add: wf_stream_def)
  have "unat (qBound s) \<noteq> 0" using a by (simp add: unat_eq_0)
  then have ne: "myImplObj s \<noteq> []" using len by auto
  have "myImplObj s = replicate (length (myImplObj s)) dflt"
    using I a by (simp add: unused_default_def)
  then have "hd (myImplObj s) = dflt" using ne by (metis hd_replicate replicate_empty)
  then show "operator_at s 0 h = (Inr (Generic dflt), store (mrkCount s) (- 1) h)"
    using operator_at_front[OF ne, of h] by simp
qed

text \<open>
  A stream emptied by a resize to 0 and resized to 2 returns the value-initialised
  element; a stream after two pushes returns the newer value.
\<close>

theorem operator_at_zero_witness:
  "fst (operator_at (fst (run (0::int) [Push 5, Resize 0, Resize 2] (Object_ctor 0 3 empty_heap))) 0
         (snd (run (0::int) [Push 5, Resize 0, Resize 2] (Object_ctor 0 3 empty_heap))))
     = Inr (Generic 0)
   \<and> fst (operator_at (fst (run (0::int) [Push 5, Push 6] (Object_ctor 0 3 empty_heap))) 0
         (snd (run (0::int) [Push 5, Push 6] (Object_ctor 0 3 empty_heap))))
     = Inr (Generic 6)"
proof -
  let ?X = "run (0::int) [Push 5, Resize 0, Resize 2] (Object_ctor 0 3 empty_heap)"
  let ?Y = "run (0::int) [Push 5, Push 6] (Object_ctor 0 3 empty_heap)"
  have r: "?X = (fst ?X, snd ?X) \<and> qBound (fst ?X) \<noteq> 0 \<and> qCount (fst ?X) = 0"
    by (rule conjI, simp, code_simp)
  have ne: "myImplObj (fst ?Y) \<noteq> []" by code_simp
  have hdY: "hd (myImplObj (fst ?Y)) = 6" by code_simp
  from operator_at_zero[of "fst ?X" "snd ?X" 0 "[Push 5, Resize 0, Resize 2]" 3 empty_heap] r
  have 1: "fst (operator_at (fst ?X) 0 (snd ?X)) = Inr (Generic 0)" by simp
  from operator_at_zero[of "fst ?Y" "snd ?Y" 0 "[]" 0 empty_heap] ne hdY
  have 2: "fst (operator_at (fst ?Y) 0 (snd ?Y)) = Inr (Generic 6)" by simp
  from 1 2 show ?thesis by simp
qed

text \<open>
  The claim C10 as stated fails for the stream that \<^verbatim>\<open>Object(0)\<close> builds: its deque
  is empty, and \<^verbatim>\<open>front()\<close> of an empty deque has no defined behaviour.
\<close>

theorem operator_at_zero_counterexample:
  "(let (s, h) = Object_ctor (0::int) 0 empty_heap
    in qBound s = 0 \<and> fst (operator_at s 0 h) = Inl undefined_behaviour)"
  by code_simp

end
